theory Spec2Isabelle
  imports Complex_Main "HOL-Library.Sublist" "HOL-Library.List_Lexorder" "HOL-Library.Char_ord"
    "HOL-Library.AList"
begin

section \<open>Values\<close>

text \<open>
  Documents are stored with \<^verbatim>\<open>valueEncoding: "json"\<close>, so a stored value is a JSON value.
  An object is the list of its own properties in enumeration order (the order \<^verbatim>\<open>for .. in\<close>
  yields them), each property name once. Numbers of documents are finite; the rationals
  contain every finite double. A document is an object: the record whose fields the
  matcher and the index project by name.
\<close>

datatype json =
    JNull
  | JBool bool
  | JNum rat
  | JStr string
  | JArr "json list"
  | JObj "(string \<times> json) list"

type_synonym document = "(string \<times> json) list"

text \<open>
  What the read \<^verbatim>\<open>document[key]\<close> finds on a document: an own property with its JSON
  value, a member the document inherits from \<^verbatim>\<open>Object.prototype\<close> (a function, or the
  prototype object itself for \<^verbatim>\<open>__proto__\<close>), or nothing (\<^verbatim>\<open>undefined\<close>).
\<close>

datatype property = Undefined | Own json | Inherited string

text \<open>The names of the members of \<^verbatim>\<open>Object.prototype\<close>, which every decoded document
  inherits.\<close>

definition object_prototype_names :: "string list" where
  "object_prototype_names =
     [''constructor'', ''__defineGetter__'', ''__defineSetter__'', ''hasOwnProperty'',
      ''__lookupGetter__'', ''__lookupSetter__'', ''isPrototypeOf'', ''propertyIsEnumerable'',
      ''toString'', ''valueOf'', ''__proto__'', ''toLocaleString'']"

text \<open>
  \<^verbatim>\<open>document[key]\<close>: an own property shadows an inherited member. The test
  \<^verbatim>\<open>key in document\<close> is true exactly when this read is not \<^verbatim>\<open>undefined\<close>: a decoded
  document has no own property whose value is \<^verbatim>\<open>undefined\<close>, and no inherited member is.
\<close>

definition js_get :: "document \<Rightarrow> string \<Rightarrow> property" where
  "js_get d key =
     (case map_of d key of
        Some v \<Rightarrow> Own v
      | None \<Rightarrow> if key \<in> set object_prototype_names then Inherited key else Undefined)"

text \<open>A number of the running program: a double can also be \<^verbatim>\<open>NaN\<close> or infinite.\<close>

datatype jsnum = NaN | NegInf | Fin rat | PosInf

section \<open>Queries (query.ts)\<close>

text \<open>
  \<^verbatim>\<open>type QueryItem = { $eq?: string } & { $neq?: string } & { $gt?: number }\<close>:
  an operator object is the list of its properties in enumeration order. A property is one
  of the three typed operators, whose operand may be \<^verbatim>\<open>undefined\<close> (\<open>None\<close>), or a
  property with any other name.
\<close>

datatype operator =
    Eq "string option"
  | Neq "string option"
  | Gt "jsnum option"
  | Unrecognized string

type_synonym QueryItem = "operator list"

text \<open>
  \<^verbatim>\<open>type Query = { [k: string]: QueryItem | Query[] }\<close>: a query is the list of its
  properties in enumeration order; a property value is an operator object or an array of
  queries.
\<close>

datatype qvalue =
    Item QueryItem
  | Subs "(string \<times> qvalue) list list"

type_synonym Query = "(string \<times> qvalue) list"

datatype error =
    InvalidQueryShape
  | NotFound
  | StoreFailure
  | BodyFailure

text \<open>\<^verbatim>\<open>value === operand\<close> for a JSON value and an operand of type \<^verbatim>\<open>string | undefined\<close>.\<close>

fun strict_eq :: "json \<Rightarrow> string option \<Rightarrow> bool" where
  "strict_eq (JStr a) (Some b) = (a = b)"
| "strict_eq _ _ = False"

text \<open>\<^verbatim>\<open>a > b\<close> on numbers: false whenever either side is \<^verbatim>\<open>NaN\<close>.\<close>

fun num_gt :: "jsnum \<Rightarrow> jsnum \<Rightarrow> bool" where
  "num_gt NaN b = False"
| "num_gt NegInf b = False"
| "num_gt PosInf b = (b \<noteq> NaN \<and> b \<noteq> PosInf)"
| "num_gt (Fin x) NaN = False"
| "num_gt (Fin x) NegInf = True"
| "num_gt (Fin x) (Fin y) = (y < x)"
| "num_gt (Fin x) PosInf = False"

text \<open>
  \<^verbatim>\<open>ToNumber\<close> of the left operand. The conversion of \<^verbatim>\<open>null\<close>, booleans and numbers is
  fixed; the conversion of strings, arrays and objects (parsing the value's string form) is
  the runtime's and is the parameter \<open>coerce\<close>.
\<close>

fun to_number :: "(json \<Rightarrow> jsnum) \<Rightarrow> json \<Rightarrow> jsnum" where
  "to_number coerce JNull = Fin 0"
| "to_number coerce (JBool b) = Fin (if b then 1 else 0)"
| "to_number coerce (JNum x) = Fin x"
| "to_number coerce v = coerce v"

text \<open>\<^verbatim>\<open>value > n\<close> for a number \<open>n\<close>: the right operand is not a string, so both sides
  are compared as numbers.\<close>

definition js_gt :: "(json \<Rightarrow> jsnum) \<Rightarrow> json \<Rightarrow> jsnum \<Rightarrow> bool" where
  "js_gt coerce v n = num_gt (to_number coerce v) n"

text \<open>Truthiness of an operand of type \<^verbatim>\<open>number | undefined\<close>: \<^verbatim>\<open>undefined\<close>, \<^verbatim>\<open>NaN\<close>
  and zero are falsy.\<close>

fun truthy :: "jsnum option \<Rightarrow> bool" where
  "truthy None = False"
| "truthy (Some NaN) = False"
| "truthy (Some (Fin x)) = (x \<noteq> 0)"
| "truthy (Some n) = True"

text \<open>\<^verbatim>\<open>item.$gt || 0\<close>\<close>

definition or_zero :: "jsnum option \<Rightarrow> jsnum" where
  "or_zero operand = (case operand of Some n \<Rightarrow> if truthy operand then n else Fin 0 | None \<Rightarrow> Fin 0)"

text \<open>
  \<^verbatim>\<open>evaluate(item, value)\<close>: the loop over the item's keys returns at the first key that
  is one of the three \<^verbatim>\<open>case\<close> labels; any other key falls out of the \<^verbatim>\<open>switch\<close> and
  the loop goes on; after the loop the result is \<^verbatim>\<open>false\<close>.
\<close>

fun evaluate :: "(json \<Rightarrow> jsnum) \<Rightarrow> QueryItem \<Rightarrow> json \<Rightarrow> bool" where
  "evaluate coerce [] v = False"
| "evaluate coerce (Eq operand # rest) v = strict_eq v operand"
| "evaluate coerce (Neq operand # rest) v = (\<not> strict_eq v operand)"
| "evaluate coerce (Gt operand # rest) v = js_gt coerce v (or_zero operand)"
| "evaluate coerce (Unrecognized key # rest) v = evaluate coerce rest v"

text \<open>
  \<^verbatim>\<open>evaluate(item, value)\<close> at a value that is a member inherited from
  \<^verbatim>\<open>Object.prototype\<close>: the same loop. Such a value is an object, so it is strictly equal
  to no string and not to \<^verbatim>\<open>undefined\<close>; its conversion to a number goes through its
  string form (the source text of a function, or \<^verbatim>\<open>[object Object]\<close>) and is \<^verbatim>\<open>NaN\<close>,
  which is greater than no number.
\<close>

fun evaluate_inherited :: "QueryItem \<Rightarrow> bool" where
  "evaluate_inherited [] = False"
| "evaluate_inherited (Eq operand # rest) = False"
| "evaluate_inherited (Neq operand # rest) = True"
| "evaluate_inherited (Gt operand # rest) = False"
| "evaluate_inherited (Unrecognized key # rest) = evaluate_inherited rest"

text \<open>
  \<^verbatim>\<open>match(query, document)\<close>. The result is \<open>Inr b\<close> when the call returns \<open>b\<close> and
  \<open>Inl InvalidQueryShape\<close> when it throws. The guard \<^verbatim>\<open>key in document\<close> fails exactly
  in the branch \<open>Undefined\<close>; in the other two branches \<^verbatim>\<open>evaluate\<close> is applied to what
  \<^verbatim>\<open>document[key]\<close> reads. \<open>some_match\<close> is
  \<^verbatim>\<open>value.some((q) => match(q, document))\<close>: the sub-queries are tried in order up to the
  first that returns true, and a throw inside the callback leaves \<^verbatim>\<open>some\<close>.
\<close>

function match :: "(json \<Rightarrow> jsnum) \<Rightarrow> Query \<Rightarrow> document \<Rightarrow> error + bool"
  and some_match :: "(json \<Rightarrow> jsnum) \<Rightarrow> Query list \<Rightarrow> document \<Rightarrow> error + bool" where
  "match coerce [] d = Inr True"
| "match coerce ((key, value) # rest) d =
     (if key = ''$or'' then
        (case value of
           Item _ \<Rightarrow> Inl InvalidQueryShape
         | Subs qs \<Rightarrow> some_match coerce qs d)
      else
        (case value of
           Subs _ \<Rightarrow> Inl InvalidQueryShape
         | Item item \<Rightarrow>
            (case js_get d key of
               Undefined \<Rightarrow> match coerce rest d
             | Own v \<Rightarrow> if \<not> evaluate coerce item v then Inr False else match coerce rest d
             | Inherited n \<Rightarrow>
                 if \<not> evaluate_inherited item then Inr False else match coerce rest d)))"
| "some_match coerce [] d = Inr False"
| "some_match coerce (q # qs) d =
     (case match coerce q d of
        Inl e \<Rightarrow> Inl e
      | Inr True \<Rightarrow> Inr True
      | Inr False \<Rightarrow> some_match coerce qs d)"
  by pat_completeness auto
termination
  by (relation "measure (\<lambda>x. case x of
        Inl (c, q, d) \<Rightarrow> size_list (size_prod (\<lambda>_. 0) size) q
      | Inr (c, qs, d) \<Rightarrow> Suc (size_list (size_list (size_prod (\<lambda>_. 0) size)) qs))") auto

text \<open>
  A field predicate is satisfied on a document when its key is not the logical-or marker,
  its value is an operator object, and the key is not in the document or the operator
  object evaluates to true on what the document has under the key.
\<close>

definition satisfied :: "(json \<Rightarrow> jsnum) \<Rightarrow> document \<Rightarrow> string \<times> qvalue \<Rightarrow> bool" where
  "satisfied coerce d kv =
     (fst kv \<noteq> ''$or'' \<and>
      (case snd kv of
         Subs _ \<Rightarrow> False
       | Item item \<Rightarrow>
           (case js_get d (fst kv) of
              Undefined \<Rightarrow> True
            | Own v \<Rightarrow> evaluate coerce item v
            | Inherited n \<Rightarrow> evaluate_inherited item)))"

text \<open>A conversion used in the examples: every string, array and object converts to
  \<^verbatim>\<open>NaN\<close>, as the strings that are no numeric literal and the plain objects do.\<close>

definition nan_coerce :: "json \<Rightarrow> jsnum" where
  "nan_coerce v = NaN"

text \<open>Example inputs: a document, a query whose logical-or key has sibling keys, and
  two malformed queries.\<close>

definition example_doc :: document where
  "example_doc = [(''type'', JStr ''post''), (''id'', JNum 1)]"

definition or_query :: Query where
  "or_query =
     [(''type'', Item [Eq (Some ''post'')]),
      (''$or'', Subs [[(''id'', Item [Gt (Some (Fin 5))])], []]),
      (''tags'', Subs [])]"



text \<open>Two queries on a name that the example document does not have and every document
  inherits.\<close>

definition inherited_query :: Query where
  "inherited_query = [(''toString'', Item [Eq (Some ''x'')])]"


section \<open>The ordered key-value store\<close>

text \<open>
  Modelled from the spec: the ordered key-value collection (the external package
  \<^verbatim>\<open>level\<close>, not part of the repository). A store is the list of its entries in key order,
  each key once; keys are strings, as \<^verbatim>\<open>level\<close> hands them back from an iterator, and are
  compared lexicographically.
\<close>

type_synonym 'v store = "(string \<times> 'v) list"

text \<open>Modelled from the spec: \<^verbatim>\<open>put\<close> is an upsert that keeps the entries in key order.\<close>

fun store_put :: "string \<Rightarrow> 'v \<Rightarrow> 'v store \<Rightarrow> 'v store" where
  "store_put k v [] = [(k, v)]"
| "store_put k v ((k', v') # rest) =
     (if k < k' then (k, v) # (k', v') # rest
      else if k = k' then (k, v) # rest
      else (k', v') # store_put k v rest)"

text \<open>Modelled from the spec: the point lookup; \<open>None\<close> is the not-found failure.\<close>

definition store_get :: "string \<Rightarrow> 'v store \<Rightarrow> 'v option" where
  "store_get k st = map_of st k"

text \<open>Modelled from the spec: \<^verbatim>\<open>seek\<close> positions the ordered iterator at the first key
  greater than or equal to the target; the result is what the iterator yields from there.\<close>

definition store_seek :: "string \<Rightarrow> 'v store \<Rightarrow> 'v store" where
  "store_seek k st = dropWhile (\<lambda>(k', v'). k' < k) st"

text \<open>Modelled from the spec: the multi-get returns one slot per requested key, in the
  order requested, \<open>None\<close> (\<^verbatim>\<open>undefined\<close>) for a key that is not stored.\<close>

definition getMany :: "string list \<Rightarrow> 'v store \<Rightarrow> 'v option list" where
  "getMany keys st = map (map_of st) keys"

section \<open>The database (database.ts)\<close>

text \<open>An entry of \<^verbatim>\<open>meta.indexes\<close>, and the options of \<^verbatim>\<open>createIndex\<close>. The index type is
  the string the running program holds.\<close>

record index_meta =
  field :: string
  type :: string

record IndexOptions = index_meta +
  name :: string

record search_query =
  dollar_eq :: "string option"
  dollar_startsWith :: "string option"

record Search =
  index :: string
  query :: search_query

text \<open>The calls on store handles, in the order they are made.\<close>

datatype io =
    IndexOpen string
  | IndexClose string
  | DbPut string
  | DbGet string
  | DbGetMany "string list"
  | DbIterator

text \<open>
  The state of a database: the primary store \<open>db\<close>; \<^verbatim>\<open>meta.indexes\<close> as the list of its
  properties in enumeration order; the file \<^verbatim>\<open>meta.json\<close>; the posting store of each index
  name (the store at \<^verbatim>\<open>root/index/name\<close>, empty until written); and the trace of calls on
  store handles. An assignment to \<^verbatim>\<open>meta.indexes[name]\<close> keeps the place of a name already
  present and puts a new name last (index names that are canonical array indices, which
  are enumerated first, are not distinguished).
\<close>

record database =
  db :: "document store"
  meta :: "(string \<times> index_meta) list"
  meta_json :: "(string \<times> index_meta) list option"
  index_dbs :: "string \<Rightarrow> string list store"
  trace :: "io list"

text \<open>The database the constructor yields in an empty directory.\<close>

definition new_database :: database where
  "new_database = \<lparr>db = [], meta = [], meta_json = None, index_dbs = (\<lambda>n. []), trace = []\<rparr>"

definition updateMeta :: "database \<Rightarrow> database" where
  "updateMeta s = s\<lparr>meta_json := Some (meta s)\<rparr>"

text \<open>
  The loop of \<^verbatim>\<open>createIndex\<close> over the primary store. \<open>enc\<close> is the posting store's
  treatment of an indexed value as a key: the key's string form, or \<open>None\<close> when the store
  refuses the value as a key (the argument \<open>Undefined\<close> is the projection of a field the
  document neither has nor inherits). A refused key fails the \<^verbatim>\<open>get\<close>, which is caught,
  and then the \<^verbatim>\<open>put\<close>, which is not.
\<close>

fun index_scan ::
  "(property \<Rightarrow> string option) \<Rightarrow> string \<Rightarrow> document store \<Rightarrow> string list store
    \<Rightarrow> (error + unit) \<times> string list store" where
  "index_scan enc fld [] indexDB = (Inr (), indexDB)"
| "index_scan enc fld ((key, value) # rest) indexDB =
     (let indexKey = enc (js_get value fld);
          indexValue = (case indexKey of
                          None \<Rightarrow> []
                        | Some k \<Rightarrow> (case store_get k indexDB of None \<Rightarrow> [] | Some l \<Rightarrow> l))
      in if key \<in> set indexValue then index_scan enc fld rest indexDB
         else (case indexKey of
                 None \<Rightarrow> (Inl StoreFailure, indexDB)
               | Some k \<Rightarrow> index_scan enc fld rest (store_put k (indexValue @ [key]) indexDB)))"

definition createIndex ::
  "(property \<Rightarrow> string option) \<Rightarrow> IndexOptions \<Rightarrow> database \<Rightarrow> (error + unit) \<times> database" where
  "createIndex enc opts s =
     (let s1 = s\<lparr>trace := trace s @ [IndexOpen (name opts)]\<rparr> in
      case (if type opts = ''number'' \<or> type opts = ''text'' then
              (case index_scan enc (field opts) (db s1) (index_dbs s1 (name opts)) of
                 (r, indexDB) \<Rightarrow>
                   (r, s1\<lparr>index_dbs := (index_dbs s1)(name opts := indexDB),
                           trace := trace s1 @ [DbIterator]\<rparr>))
            else (Inr (), s1)) of
        (Inl e, s2) \<Rightarrow> (Inl e, s2)
      | (Inr u, s2) \<Rightarrow>
          (let s3 = updateMeta (s2\<lparr>meta :=
                      AList.update (name opts) \<lparr>field = field opts, type = type opts\<rparr> (meta s2)\<rparr>)
           in (Inr (), s3\<lparr>trace := trace s3 @ [IndexClose (name opts)]\<rparr>)))"

text \<open>
  The loop \<^verbatim>\<open>for (const name in this.meta.indexes)\<close> of \<^verbatim>\<open>insert\<close> and of
  \<^verbatim>\<open>transaction\<close>, over the entries the metadata holds when the loop starts; a failed
  rebuild leaves the loop.
\<close>

fun update_indexes ::
  "(property \<Rightarrow> string option) \<Rightarrow> (string \<times> index_meta) list \<Rightarrow> database
    \<Rightarrow> (error + unit) \<times> database" where
  "update_indexes enc [] s = (Inr (), s)"
| "update_indexes enc ((nm, m) # rest) s =
     (case createIndex enc \<lparr>field = field m, type = type m, name = nm\<rparr> s of
        (Inl e, s') \<Rightarrow> (Inl e, s')
      | (Inr u, s') \<Rightarrow> update_indexes enc rest s')"

definition db_put :: "string \<Rightarrow> document \<Rightarrow> database \<Rightarrow> database" where
  "db_put key document s = s\<lparr>db := store_put key document (db s), trace := trace s @ [DbPut key]\<rparr>"

definition insert_doc ::
  "(property \<Rightarrow> string option) \<Rightarrow> string \<Rightarrow> document \<Rightarrow> database \<Rightarrow> (error + unit) \<times> database" where
  "insert_doc enc key document s = (let s1 = db_put key document s in update_indexes enc (meta s1) s1)"

definition get :: "string \<Rightarrow> database \<Rightarrow> (error + document) \<times> database" where
  "get key s =
     ((case store_get key (db s) of None \<Rightarrow> Inl NotFound | Some d \<Rightarrow> Inr d),
      s\<lparr>trace := trace s @ [DbGet key]\<rparr>)"

text \<open>The scan of \<^verbatim>\<open>search\<close> from the position the iterator was sought to.\<close>

fun scan :: "string \<Rightarrow> string list store \<Rightarrow> string list \<Rightarrow> string list" where
  "scan p [] keys = keys"
| "scan p ((key, value) # rest) keys =
     (if prefix p key then scan p rest (keys @ value) else keys)"

text \<open>The key list \<^verbatim>\<open>search\<close> accumulates before it closes the posting store.\<close>

definition search_keys :: "search_query \<Rightarrow> string list store \<Rightarrow> string list" where
  "search_keys q indexDB =
     (let keys = (case dollar_eq q of
                    None \<Rightarrow> []
                  | Some e \<Rightarrow> (case store_get e indexDB of None \<Rightarrow> [] | Some l \<Rightarrow> l))
      in case dollar_startsWith q of
           None \<Rightarrow> keys
         | Some p \<Rightarrow> scan p (store_seek p indexDB) keys)"

definition search :: "Search \<Rightarrow> database \<Rightarrow> document option list \<times> database" where
  "search srch s =
     (let keys = search_keys (query srch) (index_dbs s (index srch));
          s1 = s\<lparr>trace := trace s @ [IndexOpen (index srch), IndexClose (index srch)]\<rparr>
      in if keys \<noteq> [] then (getMany keys (db s1), s1\<lparr>trace := trace s1 @ [DbGetMany keys]\<rparr>)
         else ([], s1))"

text \<open>
  A transaction body that uses the restricted view: it inserts documents through the
  view's \<^verbatim>\<open>insert\<close>, in order, and then returns or throws.
\<close>

record callback =
  inserts :: "(string \<times> document) list"
  throws :: bool

text \<open>The view's \<^verbatim>\<open>insert\<close> is the bare \<^verbatim>\<open>put\<close> on the primary store.\<close>

fun view_inserts :: "(string \<times> document) list \<Rightarrow> database \<Rightarrow> database" where
  "view_inserts [] s = s"
| "view_inserts ((key, document) # rest) s = view_inserts rest (db_put key document s)"

definition transaction ::
  "(property \<Rightarrow> string option) \<Rightarrow> callback \<Rightarrow> database \<Rightarrow> (error + unit) \<times> database" where
  "transaction enc body s =
     (let s1 = view_inserts (inserts body) s in
      if throws body then (Inl BodyFailure, s1) else update_indexes enc (meta s1) s1)"

text \<open>A sequence of calls on one database handle, each made whether or not the one before
  failed.\<close>

datatype call =
    Insert string document
  | CreateIndex IndexOptions
  | Transaction callback
  | SearchCall Search
  | GetCall string

fun run_call :: "(property \<Rightarrow> string option) \<Rightarrow> call \<Rightarrow> database \<Rightarrow> database" where
  "run_call enc (Insert key document) s = snd (insert_doc enc key document s)"
| "run_call enc (CreateIndex opts) s = snd (createIndex enc opts s)"
| "run_call enc (Transaction body) s = snd (transaction enc body s)"
| "run_call enc (SearchCall srch) s = snd (search srch s)"
| "run_call enc (GetCall key) s = snd (get key s)"

fun run_calls :: "(property \<Rightarrow> string option) \<Rightarrow> call list \<Rightarrow> database \<Rightarrow> database" where
  "run_calls enc [] s = s"
| "run_calls enc (c # cs) s = run_calls enc cs (run_call enc c s)"

text \<open>A key encoding used in the examples: a string is its own key, \<^verbatim>\<open>undefined\<close> and
  every other value is refused.\<close>

fun string_key :: "property \<Rightarrow> string option" where
  "string_key (Own (JStr k)) = Some k"
| "string_key v = None"

text \<open>The index types for which the \<^verbatim>\<open>switch\<close> of \<^verbatim>\<open>createIndex\<close> has a \<^verbatim>\<open>case\<close>
  label.\<close>

definition recognized :: "string \<Rightarrow> bool" where
  "recognized t = (t = ''number'' \<or> t = ''text'')"

text \<open>The calls on store handles that one \<^verbatim>\<open>createIndex\<close> makes when it returns.\<close>

definition rebuild_io :: "string \<times> index_meta \<Rightarrow> io list" where
  "rebuild_io e =
     IndexOpen (fst e) # (if recognized (type (snd e)) then [DbIterator] else []) @ [IndexClose (fst e)]"

text \<open>Example inputs: two index definitions, three documents, a database with two
  documents and a text index on their titles, three searches and two transaction bodies.\<close>

definition title_index :: IndexOptions where
  "title_index = \<lparr>field = ''title'', type = ''text'', name = ''title:text''\<rparr>"


definition doc_a :: document where
  "doc_a = [(''title'', JStr ''Node JS Basics'')]"

definition doc_b :: document where
  "doc_b = [(''title'', JStr ''Node Advanced'')]"

definition doc_c :: document where
  "doc_c = [(''title'', JStr ''Deno'')]"

definition example_db :: database where
  "example_db =
     run_calls string_key [Insert ''A'' doc_a, Insert ''B'' doc_b, CreateIndex title_index] new_database"

definition prefix_search :: Search where
  "prefix_search =
     \<lparr>index = ''title:text'', query = \<lparr>dollar_eq = None, dollar_startsWith = Some ''Node JS''\<rparr>\<rparr>"

definition empty_search :: Search where
  "empty_search = \<lparr>index = ''title:text'', query = \<lparr>dollar_eq = None, dollar_startsWith = None\<rparr>\<rparr>"

definition both_search :: Search where
  "both_search =
     \<lparr>index = ''title:text'',
      query = \<lparr>dollar_eq = Some ''Node Advanced'', dollar_startsWith = Some ''Node''\<rparr>\<rparr>"

text \<open>A database whose document was indexed and then overwritten.\<close>

definition stale_db :: database where
  "stale_db =
     run_calls string_key [Insert ''A'' doc_a, CreateIndex title_index, Insert ''A'' doc_c] new_database"







section \<open>Properties of the matcher\<close>

subsection \<open>The operator evaluator\<close>





subsection \<open>The matcher\<close>

lemma match_skip_satisfied:
  "(\<forall>kv\<in>set pre. satisfied coerce d kv) \<Longrightarrow> match coerce (pre @ rest) d = match coerce rest d"
proof (induction pre)
  case Nil
  then show ?case by simp
next
  case (Cons kv pre)
  obtain k v where kv: "kv = (k, v)" by (cases kv)
  from Cons.prems kv have "satisfied coerce d (k, v)" by simp
  then have "match coerce ((k, v) # (pre @ rest)) d = match coerce (pre @ rest) d"
    by (auto simp: satisfied_def split: qvalue.splits property.splits)
  with Cons kv show ?case by simp
qed

lemma match_all_satisfied:
  "(\<forall>kv\<in>set q. satisfied coerce d kv) \<Longrightarrow> match coerce q d = Inr True"
  using match_skip_satisfied [of q coerce d "[]"] by simp

lemma first_unsatisfied:
  "(\<forall>kv\<in>set q. satisfied coerce d kv) \<or>
   (\<exists>pre kv rest. q = pre @ kv # rest \<and> (\<forall>x\<in>set pre. satisfied coerce d x) \<and> \<not> satisfied coerce d kv)"
proof (cases "\<forall>kv\<in>set q. satisfied coerce d kv")
  case True
  then show ?thesis by simp
next
  case False
  then have "\<exists>x\<in>set q. \<not> satisfied coerce d x" by blast
  from split_list_first_prop [OF this] show ?thesis by blast
qed

lemma first_unsatisfied_unique:
  assumes "pre @ kv # rest = pre' @ kv' # rest'"
    and "\<forall>x\<in>set pre. satisfied coerce d x" and "\<not> satisfied coerce d kv"
    and "\<forall>x\<in>set pre'. satisfied coerce d x" and "\<not> satisfied coerce d kv'"
  shows "pre = pre' \<and> kv = kv' \<and> rest = rest'"
  using assms
proof (induction pre arbitrary: pre')
  case Nil
  then show ?case by (cases pre') auto
next
  case (Cons a pre)
  then show ?case by (cases pre') auto
qed

lemma some_match_True_iff:
  "(some_match coerce qs d = Inr True) =
     (\<exists>before q' after. qs = before @ q' # after \<and>
        (\<forall>x\<in>set before. match coerce x d = Inr False) \<and> match coerce q' d = Inr True)"
proof (induction qs)
  case Nil
  then show ?case by simp
next
  case (Cons q qs)
  show ?case
  proof (cases "match coerce q d")
    case (Inl e)
    then show ?thesis by (auto simp: Cons_eq_append_conv)
  next
    case (Inr b)
    show ?thesis
    proof (cases b)
      case True
      with Inr have "match coerce q d = Inr True" by simp
      then have "q # qs = [] @ q # qs \<and> (\<forall>x\<in>set []. match coerce x d = Inr False) \<and> match coerce q d = Inr True"
        by simp
      then have "\<exists>before q' after. q # qs = before @ q' # after \<and>
        (\<forall>x\<in>set before. match coerce x d = Inr False) \<and> match coerce q' d = Inr True" by blast
      with Inr True show ?thesis by simp
    next
      case False
      with Inr have F: "match coerce q d = Inr False" by simp
      have "(\<exists>before q' after. q # qs = before @ q' # after \<and>
        (\<forall>x\<in>set before. match coerce x d = Inr False) \<and> match coerce q' d = Inr True)
        = (\<exists>before q' after. qs = before @ q' # after \<and>
        (\<forall>x\<in>set before. match coerce x d = Inr False) \<and> match coerce q' d = Inr True)"
        (is "?L = ?R")
      proof
        assume ?L
        then obtain before q' after where *: "q # qs = before @ q' # after"
          "\<forall>x\<in>set before. match coerce x d = Inr False" "match coerce q' d = Inr True" by blast
        show ?R
        proof (cases before)
          case Nil
          with * F show ?thesis by simp
        next
          case (Cons b bs)
          with * have "qs = bs @ q' # after" "\<forall>x\<in>set bs. match coerce x d = Inr False" by auto
          with * show ?thesis by blast
        qed
      next
        assume ?R
        then obtain before q' after where *: "qs = before @ q' # after"
          "\<forall>x\<in>set before. match coerce x d = Inr False" "match coerce q' d = Inr True" by blast
        then have "q # qs = (q # before) @ q' # after" "\<forall>x\<in>set (q # before). match coerce x d = Inr False"
          using F by auto
        with * show ?L by blast
      qed
      with Cons F show ?thesis by simp
    qed
  qed
qed

lemma some_match_False_iff:
  "(some_match coerce qs d = Inr False) = (\<forall>x\<in>set qs. match coerce x d = Inr False)"
  by (induction qs) (auto split: sum.splits bool.splits)


lemma match_unsatisfied:
  assumes "\<not> satisfied coerce d (k, v)"
  shows "match coerce ((k, v) # rest) d =
     (if k = ''$or'' then (case v of Item _ \<Rightarrow> Inl InvalidQueryShape | Subs qs \<Rightarrow> some_match coerce qs d)
      else (case v of Subs _ \<Rightarrow> Inl InvalidQueryShape | Item _ \<Rightarrow> Inr False))"
  using assms by (auto simp: satisfied_def split: qvalue.splits property.splits)

lemma match_decompose:
  assumes "\<forall>x\<in>set pre. satisfied coerce d x"
  shows "match coerce (pre @ (k, v) # rest) d = match coerce ((k, v) # rest) d"
  using match_skip_satisfied [OF assms] by simp


lemma some_match_no_raise:
  "(\<forall>x\<in>set qs. \<exists>b. match coerce x d = Inr b) \<Longrightarrow>
   some_match coerce qs d = Inr (\<exists>x\<in>set qs. match coerce x d = Inr True)"
proof (induction qs)
  case Nil
  then show ?case by simp
next
  case (Cons q qs)
  from Cons.prems obtain b where b: "match coerce q d = Inr b" by auto
  show ?case
  proof (cases b)
    case True
    with b show ?thesis by simp
  next
    case False
    with b Cons show ?thesis by simp
  qed
qed

lemma match_or_no_raise:
  assumes "\<forall>kv\<in>set pre. satisfied coerce d kv" and "\<forall>x\<in>set qs. \<exists>b. match coerce x d = Inr b"
  shows "match coerce (pre @ (''$or'', Subs qs) # rest) d = Inr (\<exists>x\<in>set qs. match coerce x d = Inr True)"
  using match_decompose [OF assms(1)] some_match_no_raise [OF assms(2)] by simp

text \<open>
  The matcher, characterised. For every document and query, \<open>match\<close> returns true iff,
  going through the query's keys in order, either every key is a satisfied field predicate
  (the key is not in the document, or the operator object evaluates to true on what the
  document has under it; a query with no keys is the vacuous case), or the first key that
  is not one is the logical-or key with an array in which a sub-query returns true, every
  sub-query before it having returned false; whatever keys follow the logical-or key play
  no part. It returns false iff the first key that is not a satisfied field predicate is
  a field predicate whose key is in the document, as a field or as an inherited member,
  and whose operator object evaluates to false there, or the logical-or key with an array
  all of whose sub-queries return false. When the logical-or key is reached and no
  sub-query of its array raises, the call returns at once whether at least one sub-query
  matches the document.
\<close>

theorem match_true_iff:
  "(match coerce q d = Inr True) =
     ((\<forall>kv\<in>set q. satisfied coerce d kv) \<or>
      (\<exists>pre qs rest. q = pre @ (''$or'', Subs qs) # rest \<and>
         (\<forall>kv\<in>set pre. satisfied coerce d kv) \<and>
         (\<exists>before q' after. qs = before @ q' # after \<and>
            (\<forall>x\<in>set before. match coerce x d = Inr False) \<and> match coerce q' d = Inr True))) \<and>
   (match coerce q d = Inr False) =
     ((\<exists>pre k item rest. q = pre @ (k, Item item) # rest \<and>
         (\<forall>kv\<in>set pre. satisfied coerce d kv) \<and>
         k \<noteq> ''$or'' \<and>
         ((\<exists>v. js_get d k = Own v \<and> \<not> evaluate coerce item v) \<or>
          (\<exists>n. js_get d k = Inherited n \<and> \<not> evaluate_inherited item))) \<or>
      (\<exists>pre qs rest. q = pre @ (''$or'', Subs qs) # rest \<and>
         (\<forall>kv\<in>set pre. satisfied coerce d kv) \<and>
         (\<forall>x\<in>set qs. match coerce x d = Inr False))) \<and>
   ((\<forall>kv\<in>set before_or. satisfied coerce d kv) \<and>
    (\<forall>x\<in>set subs. \<exists>b. match coerce x d = Inr b) \<longrightarrow>
      match coerce (before_or @ (''$or'', Subs subs) # after_or) d =
        Inr (\<exists>x\<in>set subs. match coerce x d = Inr True)) \<and>
   match coerce [] d = Inr True"
proof -
  let ?T = "\<exists>pre qs rest. q = pre @ (''$or'', Subs qs) # rest \<and>
         (\<forall>kv\<in>set pre. satisfied coerce d kv) \<and> some_match coerce qs d = Inr True"
  let ?F1 = "\<exists>pre k item rest. q = pre @ (k, Item item) # rest \<and>
         (\<forall>kv\<in>set pre. satisfied coerce d kv) \<and>
         k \<noteq> ''$or'' \<and>
         ((\<exists>v. js_get d k = Own v \<and> \<not> evaluate coerce item v) \<or>
          (\<exists>n. js_get d k = Inherited n \<and> \<not> evaluate_inherited item))"
  let ?F2 = "\<exists>pre qs rest. q = pre @ (''$or'', Subs qs) # rest \<and>
         (\<forall>kv\<in>set pre. satisfied coerce d kv) \<and> some_match coerce qs d = Inr False"
  have T_imp: "match coerce q d = Inr True" if "?T"
    using that match_decompose by auto
  have F1_imp: "match coerce q d = Inr False" if "?F1"
    using that match_decompose by auto
  have F2_imp: "match coerce q d = Inr False" if "?F2"
    using that match_decompose by auto
  have conv: "(match coerce q d = Inr True \<longrightarrow> (\<forall>kv\<in>set q. satisfied coerce d kv) \<or> ?T) \<and>
              (match coerce q d = Inr False \<longrightarrow> ?F1 \<or> ?F2)"
  proof (cases "\<forall>kv\<in>set q. satisfied coerce d kv")
    case True
    then show ?thesis by (simp add: match_all_satisfied)
  next
    case False
    with first_unsatisfied [of q coerce d] obtain pre kv rest where
      q: "q = pre @ kv # rest" and pre: "\<forall>x\<in>set pre. satisfied coerce d x"
      and kv: "\<not> satisfied coerce d kv" by blast
    obtain k v where kv_eq: "kv = (k, v)" by (cases kv)
    have m: "match coerce q d = match coerce ((k, v) # rest) d"
      using q kv_eq match_decompose [OF pre] by simp
    show ?thesis
    proof (cases "k = ''$or''")
      case or: True
      show ?thesis
      proof (cases v)
        case (Item item)
        with m or show ?thesis by simp
      next
        case (Subs qs)
        with m or have "match coerce q d = some_match coerce qs d" by simp
        moreover have "q = pre @ (''$or'', Subs qs) # rest" using q kv_eq or Subs by simp
        ultimately show ?thesis using pre by metis
      qed
    next
      case nor: False
      show ?thesis
      proof (cases v)
        case (Subs qs)
        with m nor show ?thesis by simp
      next
        case (Item item)
        with kv kv_eq nor have x: "(\<exists>v. js_get d k = Own v \<and> \<not> evaluate coerce item v) \<or>
          (\<exists>n. js_get d k = Inherited n \<and> \<not> evaluate_inherited item)"
          by (auto simp: satisfied_def split: property.splits)
        with m nor Item have "match coerce q d = Inr False" by auto
        moreover have "?F1" using q kv_eq Item pre nor x by blast
        ultimately show ?thesis by simp
      qed
    qed
  qed
  have 1: "(match coerce q d = Inr True) = ((\<forall>kv\<in>set q. satisfied coerce d kv) \<or> ?T)"
    using conv T_imp match_all_satisfied by blast
  have 2: "(match coerce q d = Inr False) = (?F1 \<or> ?F2)"
    using conv F1_imp F2_imp by blast
  have 3: "(\<forall>kv\<in>set before_or. satisfied coerce d kv) \<and>
    (\<forall>x\<in>set subs. \<exists>b. match coerce x d = Inr b) \<longrightarrow>
      match coerce (before_or @ (''$or'', Subs subs) # after_or) d =
        Inr (\<exists>x\<in>set subs. match coerce x d = Inr True)"
    using match_or_no_raise by blast
  have 12: "(match coerce q d = Inr True) =
     ((\<forall>kv\<in>set q. satisfied coerce d kv) \<or>
      (\<exists>pre qs rest. q = pre @ (''$or'', Subs qs) # rest \<and>
         (\<forall>kv\<in>set pre. satisfied coerce d kv) \<and>
         (\<exists>before q' after. qs = before @ q' # after \<and>
            (\<forall>x\<in>set before. match coerce x d = Inr False) \<and> match coerce q' d = Inr True))) \<and>
   (match coerce q d = Inr False) =
     ((\<exists>pre k item rest. q = pre @ (k, Item item) # rest \<and>
         (\<forall>kv\<in>set pre. satisfied coerce d kv) \<and>
         k \<noteq> ''$or'' \<and>
         ((\<exists>v. js_get d k = Own v \<and> \<not> evaluate coerce item v) \<or>
          (\<exists>n. js_get d k = Inherited n \<and> \<not> evaluate_inherited item))) \<or>
      (\<exists>pre qs rest. q = pre @ (''$or'', Subs qs) # rest \<and>
         (\<forall>kv\<in>set pre. satisfied coerce d kv) \<and>
         (\<forall>x\<in>set qs. match coerce x d = Inr False)))"
    using 1 2 by (simp add: some_match_True_iff some_match_False_iff)
  from 12 3 show ?thesis by simp
qed

theorem match_true_iff_example:
  "match nan_coerce or_query example_doc = Inr True \<and>
   match nan_coerce [(''id'', Item [Gt (Some (Fin 5))])] example_doc = Inr False \<and>
   match nan_coerce [(''title'', Item [Eq (Some ''x'')])] example_doc = Inr True"
  using match_true_iff [of nan_coerce or_query example_doc]
    match_true_iff [of nan_coerce "[(''id'', Item [Gt (Some (Fin 5))])]" example_doc]
  by (simp add: or_query_def example_doc_def js_gt_def or_zero_def js_get_def
      object_prototype_names_def)

text \<open>
  Claim C1 has \<open>match\<close> treat a field predicate whose field is absent from the document
  as satisfied, so that a query of such predicates alone matches. The example document
  has the fields \<^verbatim>\<open>type\<close> and \<^verbatim>\<open>id\<close> and no field \<^verbatim>\<open>toString\<close>; on the query
  \<^verbatim>\<open>{toString: {$eq: "x"}}\<close> the code returns false. The guard \<^verbatim>\<open>key in document\<close> also
  finds the members a document inherits from \<^verbatim>\<open>Object.prototype\<close>, and \<^verbatim>\<open>evaluate\<close> then
  compares the inherited function with the operand.
\<close>

theorem match_inherited_name_fails:
  "match nan_coerce inherited_query example_doc = Inr False \<and>
   map_of example_doc ''toString'' = None"
  by (simp add: inherited_query_def example_doc_def js_get_def object_prototype_names_def)



section \<open>Properties of the store and the database\<close>

subsection \<open>Reading a property\<close>

lemma js_get_Cons: "js_get ((k', v) # d) k = (if k = k' then Own v else js_get d k)"
  by (simp add: js_get_def)

lemma js_get_Nil:
  "js_get [] k = (if k \<in> set object_prototype_names then Inherited k else Undefined)"
  by (simp add: js_get_def)

lemmas js_get_simps = js_get_Cons js_get_Nil object_prototype_names_def


subsection \<open>The store\<close>

lemma map_of_store_put: "map_of (store_put k v st) = (map_of st)(k \<mapsto> v)"
  by (induction st) (auto simp: fun_eq_iff)

lemma store_get_put: "store_get k' (store_put k v st) = (if k' = k then Some v else store_get k' st)"
  by (simp add: store_get_def map_of_store_put)

lemma set_store_put: "fst ` set (store_put k v st) = insert k (fst ` set st)"
proof (induction k v st rule: store_put.induct)
  case (1 k v)
  then show ?case by simp
next
  case (2 k v k' v' rest)
  then show ?case by (cases "k < k'"; cases "k = k'") auto
qed

lemma sorted_store_put:
  "sorted_wrt (<) (map fst st) \<Longrightarrow> sorted_wrt (<) (map fst (store_put k v st))"
proof (induction st)
  case Nil
  then show ?case by simp
next
  case (Cons e st)
  obtain k' v' where e: "e = (k', v')" by (cases e)
  have "\<forall>x\<in>fst ` set (store_put k v st). k' < x" if "k' < k"
    using that Cons.prems e by (auto simp: set_store_put)
  with Cons e show ?case by (auto simp: image_iff) 
qed

subsection \<open>Rebuilds leave the primary store alone\<close>

lemma createIndex_db: "db (snd (createIndex enc opts s)) = db s"
  by (simp add: createIndex_def updateMeta_def Let_def split: prod.splits sum.splits)

lemma update_indexes_db: "db (snd (update_indexes enc ms s)) = db s"
proof (induction ms arbitrary: s)
  case Nil
  then show ?case by simp
next
  case (Cons e ms)
  obtain nm m where e: "e = (nm, m)" by (cases e)
  show ?case
  proof (cases "createIndex enc \<lparr>field = field m, type = type m, name = nm\<rparr> s")
    case (Pair r s')
    then have "db s' = db s"
      using createIndex_db [of enc "\<lparr>field = field m, type = type m, name = nm\<rparr>" s] by simp
    with Pair e Cons.IH [of s'] show ?thesis by (cases r) simp_all
  qed
qed

text \<open>
  Claim C2. For every key and document, \<open>get\<close> after \<open>insert\<close> of that key on the same
  database returns the document inserted, whatever indexes the metadata registers and
  whether or not a rebuild that \<open>insert\<close> triggers fails: the rebuilds leave the primary
  store as the \<^verbatim>\<open>put\<close> left it.
\<close>

theorem insert_get_roundtrip:
  "fst (get k (snd (insert_doc enc k d s))) = Inr d \<and>
   db (snd (insert_doc enc k d s)) = store_put k d (db s)"
  by (simp add: get_def insert_doc_def Let_def update_indexes_db db_put_def store_get_put)

subsection \<open>Search\<close>

lemma scan_concat:
  "scan p st keys = keys @ concat (map snd (takeWhile (\<lambda>(k, v). prefix p k) st))"
  by (induction st arbitrary: keys) auto

text \<open>
  Claim C10. A \<open>search\<close> whose query has neither \<^verbatim>\<open>$eq\<close> nor \<^verbatim>\<open>$startsWith\<close> returns the
  empty sequence; it opens and closes the posting store of the index and makes no call on
  the primary store, and it leaves the rest of the state as it was.
\<close>

theorem search_no_operator:
  "dollar_eq (query srch) = None \<Longrightarrow> dollar_startsWith (query srch) = None \<Longrightarrow>
   search srch s = ([], s\<lparr>trace := trace s @ [IndexOpen (index srch), IndexClose (index srch)]\<rparr>)"
  by (simp add: search_def search_keys_def)

text \<open>
  Claim C6. \<open>search\<close> accumulates primary keys as follows: with \<^verbatim>\<open>$eq\<close> the posting list
  of exactly that index key, a missed lookup counting as the empty list (the call never
  fails); with \<^verbatim>\<open>$startsWith\<close> the posting lists met by the scan; with both, the
  \<^verbatim>\<open>$eq\<close> keys first and the scanned keys appended to them, neither intersected nor
  deduplicated, so that the result has one slot per accumulated key.
\<close>

theorem search_accumulates:
  "fst (search srch s) =
     (let indexDB = index_dbs s (index srch);
          eq_keys = (case dollar_eq (query srch) of
                       None \<Rightarrow> []
                     | Some e \<Rightarrow> (case store_get e indexDB of None \<Rightarrow> [] | Some l \<Rightarrow> l));
          prefix_keys = (case dollar_startsWith (query srch) of
                       None \<Rightarrow> []
                     | Some p \<Rightarrow> concat (map snd (takeWhile (\<lambda>(k, v). prefix p k) (store_seek p indexDB))));
          keys = eq_keys @ prefix_keys
      in if keys = [] then [] else getMany keys (db s)) \<and>
   length (fst (search srch s)) = length (search_keys (query srch) (index_dbs s (index srch)))"
  by (auto simp: search_def search_keys_def Let_def scan_concat getMany_def split: option.splits)

subsection \<open>Prefixes in the lexicographic order\<close>

lemma prefix_not_less: "prefix p k \<Longrightarrow> \<not> k < (p :: string)"
proof (induction p arbitrary: k)
  case Nil
  then show ?case by simp
next
  case (Cons a p)
  then obtain k' where "k = a # k'" "prefix p k'" by (cases k) auto
  with Cons.IH show ?case by simp
qed

lemma prefix_between:
  "\<not> k < p \<Longrightarrow> k \<le> k' \<Longrightarrow> prefix p k' \<Longrightarrow> prefix (p :: string) k"
proof (induction p arbitrary: k k')
  case Nil
  then show ?case by simp
next
  case (Cons a p)
  from Cons.prems(3) obtain t' where k': "k' = a # t'" and pt: "prefix p t'" by (cases k') auto
  from Cons.prems(1) obtain b t where k: "k = b # t" by (cases k) auto
  from Cons.prems(1) k have 1: "\<not> b < a" "b = a \<longrightarrow> \<not> t < p" by auto
  from Cons.prems(2) k k' have 2: "b < a \<or> (b = a \<and> t \<le> t')" by simp
  from 1 2 have "b = a" "\<not> t < p" "t \<le> t'" by auto
  with Cons.IH [of t t'] pt k show ?case by simp
qed

lemma takeWhile_prefix_sorted:
  assumes "sorted (map fst st)" and "\<forall>k\<in>fst ` set st. \<not> k < p"
  shows "takeWhile (\<lambda>(k, v). prefix p k) st = filter (\<lambda>(k, v). prefix p k) (st :: (string \<times> 'v) list)"
  using assms
proof (induction st)
  case Nil
  then show ?case by simp
next
  case (Cons e st)
  obtain k v where e: "e = (k, v)" by (cases e)
  show ?case
  proof (cases "prefix p k")
    case True
    with Cons e show ?thesis by simp
  next
    case False
    have "\<not> prefix p k'" if "k' \<in> fst ` set st" for k'
    proof
      assume "prefix p k'"
      moreover have "k \<le> k'" using that Cons.prems(1) e by auto
      moreover have "\<not> k < p" using Cons.prems(2) e by simp
      ultimately have "prefix p k" using prefix_between by blast
      with False show False by simp
    qed
    then have "filter (\<lambda>(k, v). prefix p k) st = []"
      by (force simp: filter_empty_conv)
    with False e show ?thesis by simp
  qed
qed

lemma seek_scan_sorted:
  assumes "sorted (map fst st)"
  shows "takeWhile (\<lambda>(k, v). prefix p k) (store_seek p st) =
         filter (\<lambda>(k, v). prefix p k) (st :: (string \<times> 'v) list)"
  using assms
proof (induction st)
  case Nil
  then show ?case by (simp add: store_seek_def)
next
  case (Cons e st)
  obtain k v where e: "e = (k, v)" by (cases e)
  show ?case
  proof (cases "k < p")
    case True
    then have "\<not> prefix p k" using prefix_not_less by blast
    with True Cons e show ?thesis by (simp add: store_seek_def)
  next
    case False
    have "\<forall>k'\<in>fst ` set (e # st). \<not> k' < p"
      using False Cons.prems e by fastforce
    from takeWhile_prefix_sorted [OF Cons.prems this] False e
    show ?thesis by (simp add: store_seek_def)
  qed
qed

text \<open>
  The prefix scan is exact on the posting store. When the keys of the posting store are
  in lexicographic order, a \<open>search\<close> with \<^verbatim>\<open>$startsWith: p\<close> alone returns exactly the
  documents listed under the index keys that have the prefix \<open>p\<close>, in key order: seeking
  to the first key not below \<open>p\<close> and stopping at the first key without the prefix loses
  no such key and takes no other, and every key ordered before \<open>p\<close> is left out.
\<close>

theorem search_startsWith_exact:
  "sorted (map fst (index_dbs s (index srch))) \<Longrightarrow>
   dollar_eq (query srch) = None \<Longrightarrow> dollar_startsWith (query srch) = Some p \<Longrightarrow>
   fst (search srch s) =
     (let keys = concat (map snd (filter (\<lambda>(k, v). prefix p k) (index_dbs s (index srch))))
      in if keys = [] then [] else getMany keys (db s))"
proof -
  assume srt: "sorted (map fst (index_dbs s (index srch)))"
    and eq: "dollar_eq (query srch) = None" and sw: "dollar_startsWith (query srch) = Some p"
  have "search_keys (query srch) (index_dbs s (index srch)) =
        concat (map snd (filter (\<lambda>(k, v). prefix p k) (index_dbs s (index srch))))"
    using eq sw seek_scan_sorted [OF srt, of p] by (simp add: search_keys_def scan_concat)
  then show ?thesis
    by (auto simp: search_def Let_def)
qed

subsection \<open>The rebuild loop\<close>

lemma index_scan_refused:
  "enc (js_get value fld) = None \<Longrightarrow>
   index_scan enc fld ((key, value) # docs) ix = (Inl StoreFailure, ix)"
  by (simp add: Let_def)

lemma index_scan_member:
  "enc (js_get value fld) = Some k0 \<Longrightarrow>
   key \<in> set (case store_get k0 ix of None \<Rightarrow> [] | Some l \<Rightarrow> l) \<Longrightarrow>
   index_scan enc fld ((key, value) # docs) ix = index_scan enc fld docs ix"
  by (simp add: Let_def)

lemma index_scan_append:
  "enc (js_get value fld) = Some k0 \<Longrightarrow>
   key \<notin> set (case store_get k0 ix of None \<Rightarrow> [] | Some l \<Rightarrow> l) \<Longrightarrow>
   index_scan enc fld ((key, value) # docs) ix =
     index_scan enc fld docs
       (store_put k0 ((case store_get k0 ix of None \<Rightarrow> [] | Some l \<Rightarrow> l) @ [key]) ix)"
  by (cases "store_get k0 ix") (simp_all add: Let_def)

declare index_scan.simps(2) [simp del]

lemmas scan_simps = index_scan_refused index_scan_member index_scan_append

lemma index_scan_grows:
  "index_scan enc fld docs ix = (r, ix') \<Longrightarrow> store_get k ix = Some l \<Longrightarrow>
   \<exists>l'. store_get k ix' = Some (l @ l')"
proof (induction docs arbitrary: ix l)
  case Nil
  then show ?case by simp
next
  case (Cons e docs)
  obtain key "value" where e: "e = (key, value)" by (cases e)
  show ?case
  proof (cases "enc (js_get value fld)")
    case None
    with Cons.prems e show ?thesis by (simp add: index_scan_refused)
  next
    case (Some k0)
    let ?old = "case store_get k0 ix of None \<Rightarrow> [] | Some l \<Rightarrow> l"
    show ?thesis
    proof (cases "key \<in> set ?old")
      case True
      with Cons.prems e Some have "index_scan enc fld docs ix = (r, ix')"
        by (simp add: index_scan_member)
      from Cons.IH [OF this Cons.prems(2)] show ?thesis .
    next
      case False
      let ?ix1 = "store_put k0 (?old @ [key]) ix"
      from False Cons.prems e Some have scan: "index_scan enc fld docs ?ix1 = (r, ix')"
        by (simp add: index_scan_append)
      show ?thesis
      proof (cases "k = k0")
        case True
        with Cons.prems(2) have "store_get k ?ix1 = Some (l @ [key])"
          by (simp add: store_get_put)
        from Cons.IH [OF scan this] show ?thesis by auto
      next
        case False
        with Cons.prems(2) have "store_get k ?ix1 = Some l"
          by (simp add: store_get_put)
        from Cons.IH [OF scan this] show ?thesis .
      qed
    qed
  qed
qed

lemma index_scan_keeps_member:
  assumes "index_scan enc fld docs ix = (r, ix')" and "store_get k ix = Some l" and "key \<in> set l"
  shows "\<exists>l'. store_get k ix' = Some l' \<and> key \<in> set l'"
  using index_scan_grows [OF assms(1,2)] assms(3) by (auto simp: scan_simps)

lemma index_scan_idem:
  "index_scan enc fld docs ix = (r, ix') \<Longrightarrow> index_scan enc fld docs ix' = (r, ix')"
proof (induction docs arbitrary: ix)
  case Nil
  then show ?case by simp
next
  case (Cons e docs)
  obtain key "value" where e: "e = (key, value)" by (cases e)
  show ?case
  proof (cases "enc (js_get value fld)")
    case None
    with Cons.prems e show ?thesis by (auto simp: scan_simps)
  next
    case (Some k0)
    let ?old = "case store_get k0 ix of None \<Rightarrow> [] | Some l \<Rightarrow> l"
    have "\<exists>ix1 l1. index_scan enc fld docs ix1 = (r, ix') \<and> store_get k0 ix1 = Some l1 \<and> key \<in> set l1"
    proof (cases "key \<in> set ?old")
      case True
      with Cons.prems e Some have "index_scan enc fld docs ix = (r, ix')" by (simp add: scan_simps)
      moreover from True obtain l1 where "store_get k0 ix = Some l1" "key \<in> set l1"
        by (cases "store_get k0 ix") auto
      ultimately show ?thesis by blast
    next
      case False
      with Cons.prems e Some
      have "index_scan enc fld docs (store_put k0 (?old @ [key]) ix) = (r, ix')" by (simp add: scan_simps)
      moreover have "store_get k0 (store_put k0 (?old @ [key]) ix) = Some (?old @ [key])"
        by (simp add: store_get_put)
      ultimately show ?thesis by fastforce
    qed
    then obtain ix1 l1 where scan: "index_scan enc fld docs ix1 = (r, ix')"
      and l1: "store_get k0 ix1 = Some l1" "key \<in> set l1" by blast
    from index_scan_keeps_member [OF scan l1] obtain l' where
      "store_get k0 ix' = Some l'" "key \<in> set l'" by blast
    with Cons.IH [OF scan] e Some show ?thesis by (simp add: scan_simps)
  qed
qed

lemma index_scan_distinct:
  "index_scan enc fld docs ix = (r, ix') \<Longrightarrow>
   (\<And>k l. store_get k ix = Some l \<Longrightarrow> distinct l) \<Longrightarrow>
   store_get k ix' = Some l \<Longrightarrow> distinct l"
proof (induction docs arbitrary: ix)
  case Nil
  then show ?case by simp
next
  case (Cons e docs)
  obtain key "value" where e: "e = (key, value)" by (cases e)
  show ?case
  proof (cases "enc (js_get value fld)")
    case None
    with Cons.prems e show ?thesis by (auto simp: scan_simps)
  next
    case (Some k0)
    let ?old = "case store_get k0 ix of None \<Rightarrow> [] | Some l \<Rightarrow> l"
    show ?thesis
    proof (cases "key \<in> set ?old")
      case True
      with Cons.prems(1) e Some have "index_scan enc fld docs ix = (r, ix')" by (simp add: scan_simps)
      from Cons.IH [OF this Cons.prems(2) Cons.prems(3)] show ?thesis by simp
    next
      case False
      let ?ix1 = "store_put k0 (?old @ [key]) ix"
      from False Cons.prems(1) e Some have scan: "index_scan enc fld docs ?ix1 = (r, ix')" by (simp add: scan_simps)
      have old: "distinct ?old" using Cons.prems(2) by (cases "store_get k0 ix") auto
      have "distinct l1" if "store_get k1 ?ix1 = Some l1" for k1 l1
        using that False old Cons.prems(2) by (auto simp: store_get_put split: if_splits)
      from Cons.IH [OF scan this Cons.prems(3)] show ?thesis by simp
    qed
  qed
qed

lemma index_scan_sorted:
  "index_scan enc fld docs ix = (r, ix') \<Longrightarrow> sorted_wrt (<) (map fst ix) \<Longrightarrow>
   sorted_wrt (<) (map fst ix')"
proof (induction docs arbitrary: ix)
  case Nil
  then show ?case by simp
next
  case (Cons e docs)
  obtain key "value" where e: "e = (key, value)" by (cases e)
  show ?case
  proof (cases "enc (js_get value fld)")
    case None
    with Cons.prems e show ?thesis by (simp add: scan_simps)
  next
    case (Some k0)
    let ?old = "case store_get k0 ix of None \<Rightarrow> [] | Some l \<Rightarrow> l"
    show ?thesis
    proof (cases "key \<in> set ?old")
      case True
      with Cons.prems e Some have "index_scan enc fld docs ix = (r, ix')"
        by (simp add: scan_simps)
      from Cons.IH [OF this Cons.prems(2)] show ?thesis .
    next
      case False
      with Cons.prems e Some
      have "index_scan enc fld docs (store_put k0 (?old @ [key]) ix) = (r, ix')"
        by (simp add: scan_simps)
      from Cons.IH [OF this sorted_store_put [OF Cons.prems(2)]] show ?thesis .
    qed
  qed
qed



lemma index_scan_covers:
  "index_scan enc fld docs ix = (Inr (), ix') \<Longrightarrow> (key, value) \<in> set docs \<Longrightarrow>
   \<exists>k l. enc (js_get value fld) = Some k \<and> store_get k ix' = Some l \<and> key \<in> set l"
proof (induction docs arbitrary: ix)
  case Nil
  then show ?case by simp
next
  case (Cons e docs)
  obtain key0 value0 where e: "e = (key0, value0)" by (cases e)
  show ?case
  proof (cases "enc (js_get value0 fld)")
    case None
    with Cons.prems e show ?thesis by (simp add: scan_simps)
  next
    case (Some k0)
    let ?old = "case store_get k0 ix of None \<Rightarrow> [] | Some l \<Rightarrow> l"
    have "\<exists>ix1 l1. index_scan enc fld docs ix1 = (Inr (), ix') \<and> store_get k0 ix1 = Some l1 \<and> key0 \<in> set l1"
    proof (cases "key0 \<in> set ?old")
      case True
      with Cons.prems e Some have "index_scan enc fld docs ix = (Inr (), ix')" by (simp add: scan_simps)
      moreover from True obtain l1 where "store_get k0 ix = Some l1" "key0 \<in> set l1"
        by (cases "store_get k0 ix") auto
      ultimately show ?thesis by blast
    next
      case False
      with Cons.prems e Some
      have "index_scan enc fld docs (store_put k0 (?old @ [key0]) ix) = (Inr (), ix')" by (simp add: scan_simps)
      moreover have "store_get k0 (store_put k0 (?old @ [key0]) ix) = Some (?old @ [key0])"
        by (simp add: store_get_put)
      ultimately show ?thesis by fastforce
    qed
    then obtain ix1 l1 where scan: "index_scan enc fld docs ix1 = (Inr (), ix')"
      and l1: "store_get k0 ix1 = Some l1" "key0 \<in> set l1" by blast
    show ?thesis
    proof (cases "(key, value) = (key0, value0)")
      case True
      with index_scan_keeps_member [OF scan l1] Some show ?thesis by (auto simp: scan_simps)
    next
      case False
      with Cons.prems(2) e have "(key, value) \<in> set docs" by auto
      from Cons.IH [OF scan this] show ?thesis .
    qed
  qed
qed

subsection \<open>One rebuild\<close>

lemma createIndex_unrecognized:
  assumes "\<not> recognized (type opts)"
  shows "createIndex enc opts s =
     (Inr (), s\<lparr>meta := AList.update (name opts) \<lparr>field = field opts, type = type opts\<rparr> (meta s),
               meta_json := Some (AList.update (name opts) \<lparr>field = field opts, type = type opts\<rparr> (meta s)),
               trace := trace s @ [IndexOpen (name opts), IndexClose (name opts)]\<rparr>)"
  using assms by (simp add: createIndex_def recognized_def updateMeta_def Let_def)

lemma createIndex_rebuilt:
  assumes "recognized (type opts)"
    and "index_scan enc (field opts) (db s) (index_dbs s (name opts)) = (Inr (), ix')"
  shows "createIndex enc opts s =
     (Inr (), s\<lparr>index_dbs := (index_dbs s)(name opts := ix'),
               meta := AList.update (name opts) \<lparr>field = field opts, type = type opts\<rparr> (meta s),
               meta_json := Some (AList.update (name opts) \<lparr>field = field opts, type = type opts\<rparr> (meta s)),
               trace := trace s @ [IndexOpen (name opts), DbIterator, IndexClose (name opts)]\<rparr>)"
  using assms by (simp add: createIndex_def recognized_def updateMeta_def Let_def)

lemma createIndex_failed:
  assumes "recognized (type opts)"
    and "index_scan enc (field opts) (db s) (index_dbs s (name opts)) = (Inl e, ix')"
  shows "createIndex enc opts s =
     (Inl e, s\<lparr>index_dbs := (index_dbs s)(name opts := ix'),
              trace := trace s @ [IndexOpen (name opts), DbIterator]\<rparr>)"
  using assms by (simp add: createIndex_def recognized_def updateMeta_def Let_def)

lemma createIndex_cases:
  obtains (unrecognized) "\<not> recognized (type opts)"
      "createIndex enc opts s =
        (Inr (), s\<lparr>meta := AList.update (name opts) \<lparr>field = field opts, type = type opts\<rparr> (meta s),
               meta_json := Some (AList.update (name opts) \<lparr>field = field opts, type = type opts\<rparr> (meta s)),
               trace := trace s @ [IndexOpen (name opts), IndexClose (name opts)]\<rparr>)"
  | (rebuilt) ix' where "recognized (type opts)"
      "index_scan enc (field opts) (db s) (index_dbs s (name opts)) = (Inr (), ix')"
      "createIndex enc opts s =
        (Inr (), s\<lparr>index_dbs := (index_dbs s)(name opts := ix'),
               meta := AList.update (name opts) \<lparr>field = field opts, type = type opts\<rparr> (meta s),
               meta_json := Some (AList.update (name opts) \<lparr>field = field opts, type = type opts\<rparr> (meta s)),
               trace := trace s @ [IndexOpen (name opts), DbIterator, IndexClose (name opts)]\<rparr>)"
  | (failed) e ix' where "recognized (type opts)"
      "index_scan enc (field opts) (db s) (index_dbs s (name opts)) = (Inl e, ix')"
      "createIndex enc opts s =
        (Inl e, s\<lparr>index_dbs := (index_dbs s)(name opts := ix'),
              trace := trace s @ [IndexOpen (name opts), DbIterator]\<rparr>)"
proof (cases "recognized (type opts)")
  case False
  with createIndex_unrecognized that show ?thesis by blast
next
  case True
  obtain r ix' where scan: "index_scan enc (field opts) (db s) (index_dbs s (name opts)) = (r, ix')"
    by (cases "index_scan enc (field opts) (db s) (index_dbs s (name opts))")
  show ?thesis
  proof (cases r)
    case (Inl e)
    with True scan createIndex_failed that show ?thesis by blast
  next
    case (Inr u)
    with True scan createIndex_rebuilt that show ?thesis by auto
  qed
qed


lemma createIndex_distinct:
  assumes "\<And>nm k l. store_get k (index_dbs s nm) = Some l \<Longrightarrow> distinct l"
    and "store_get k (index_dbs (snd (createIndex enc opts s)) nm) = Some l"
  shows "distinct l"
proof (cases rule: createIndex_cases [of opts enc s])
  case unrecognized
  with assms show ?thesis by simp
next
  case (rebuilt ix')
  show ?thesis
  proof (cases "nm = name opts")
    case True
    with assms(2) rebuilt(3) have "store_get k ix' = Some l" by simp
    from index_scan_distinct [OF rebuilt(2) assms(1) this] show ?thesis by simp
  next
    case False
    with assms rebuilt(3) show ?thesis by simp
  qed
next
  case (failed e ix')
  show ?thesis
  proof (cases "nm = name opts")
    case True
    with assms(2) failed(3) have "store_get k ix' = Some l" by simp
    from index_scan_distinct [OF failed(2) assms(1) this] show ?thesis by simp
  next
    case False
    with assms failed(3) show ?thesis by simp
  qed
qed

lemma createIndex_sorted:
  assumes "\<And>nm. sorted_wrt (<) (map fst (index_dbs s nm))"
  shows "sorted_wrt (<) (map fst (index_dbs (snd (createIndex enc opts s)) nm))"
proof (cases rule: createIndex_cases [of opts enc s])
  case unrecognized
  with assms show ?thesis by simp
next
  case (rebuilt ix')
  with index_scan_sorted [OF rebuilt(2) assms] assms show ?thesis by simp
next
  case (failed e ix')
  with index_scan_sorted [OF failed(2) assms] assms show ?thesis by simp
qed

lemma createIndex_twice:
  "createIndex enc opts (snd (createIndex enc opts s)) =
     (fst (createIndex enc opts s),
      (snd (createIndex enc opts s))
        \<lparr>trace := trace (snd (createIndex enc opts s)) @
           (if fst (createIndex enc opts s) = Inr () then rebuild_io (name opts, \<lparr>field = field opts, type = type opts\<rparr>)
            else [IndexOpen (name opts), DbIterator])\<rparr>)"
proof (cases rule: createIndex_cases [of opts enc s])
  case unrecognized
  then show ?thesis
    by (simp add: createIndex_unrecognized rebuild_io_def)
next
  case (rebuilt ix')
  let ?s' = "snd (createIndex enc opts s)"
  have "index_scan enc (field opts) (db ?s') (index_dbs ?s' (name opts)) = (Inr (), ix')"
    using rebuilt(3) index_scan_idem [OF rebuilt(2)] by simp
  from createIndex_rebuilt [OF rebuilt(1) this] rebuilt(1,3) show ?thesis
    by (simp add: rebuild_io_def)
next
  case (failed e ix')
  let ?s' = "snd (createIndex enc opts s)"
  have "index_scan enc (field opts) (db ?s') (index_dbs ?s' (name opts)) = (Inl e, ix')"
    using failed(3) index_scan_idem [OF failed(2)] by simp
  from createIndex_failed [OF failed(1) this] failed(1,3) show ?thesis
    by simp
qed

subsection \<open>The rebuild of every registered index\<close>


lemma update_indexes_distinct:
  "(\<And>nm k l. store_get k (index_dbs s nm) = Some l \<Longrightarrow> distinct l) \<Longrightarrow>
   store_get k (index_dbs (snd (update_indexes enc ms s)) nm) = Some l \<Longrightarrow> distinct l"
proof (induction ms arbitrary: s)
  case Nil
  then show ?case by simp
next
  case (Cons e ms)
  obtain n m where e: "e = (n, m)" by (cases e)
  let ?opts = "\<lparr>field = field m, type = type m, name = n\<rparr>"
  obtain r s' where c: "createIndex enc ?opts s = (r, s')" by (cases "createIndex enc ?opts s")
  have d: "distinct l1" if "store_get k1 (index_dbs s' nm1) = Some l1" for nm1 k1 l1
    using createIndex_distinct [of s k1 enc ?opts nm1 l1] Cons.prems(1) that c by simp
  show ?case
  proof (cases r)
    case (Inl err)
    with c e Cons.prems(2) d show ?thesis by simp
  next
    case (Inr u)
    with c e Cons.prems(2) have "store_get k (index_dbs (snd (update_indexes enc ms s')) nm) = Some l"
      by simp
    from Cons.IH [OF d this] show ?thesis by simp
  qed
qed

lemma update_indexes_sorted:
  "(\<And>nm. sorted_wrt (<) (map fst (index_dbs s nm))) \<Longrightarrow>
   sorted_wrt (<) (map fst (index_dbs (snd (update_indexes enc ms s)) nm))"
proof (induction ms arbitrary: s)
  case Nil
  then show ?case by simp
next
  case (Cons e ms)
  obtain n m where e: "e = (n, m)" by (cases e)
  let ?opts = "\<lparr>field = field m, type = type m, name = n\<rparr>"
  obtain r s' where c: "createIndex enc ?opts s = (r, s')" by (cases "createIndex enc ?opts s")
  have d: "sorted_wrt (<) (map fst (index_dbs s' nm1))" for nm1
    using createIndex_sorted [of s enc ?opts nm1] Cons.prems c by simp
  show ?case
  proof (cases r)
    case (Inl err)
    with c e d show ?thesis by simp
  next
    case (Inr u)
    with c e Cons.IH [OF d] show ?thesis by simp
  qed
qed

lemma view_inserts_index_dbs: "index_dbs (view_inserts ins s) = index_dbs s"
  by (induction ins arbitrary: s) (auto simp: db_put_def)


lemma run_call_distinct:
  assumes "\<And>nm k l. store_get k (index_dbs s nm) = Some l \<Longrightarrow> distinct l"
    and "store_get k (index_dbs (run_call enc c s) nm) = Some l"
  shows "distinct l"
proof (cases c)
  case (Insert key document)
  with assms(2) have "store_get k (index_dbs (snd (update_indexes enc (meta (db_put key document s))
      (db_put key document s))) nm) = Some l"
    by (simp add: insert_doc_def Let_def)
  moreover have "distinct l1" if "store_get k1 (index_dbs (db_put key document s) nm1) = Some l1"
    for nm1 k1 l1 using that assms(1) by (simp add: db_put_def)
  ultimately show ?thesis using update_indexes_distinct by blast
next
  case (CreateIndex opts)
  with assms(2) have "store_get k (index_dbs (snd (createIndex enc opts s)) nm) = Some l" by simp
  from createIndex_distinct [OF assms(1) this] show ?thesis by simp
next
  case (Transaction body)
  show ?thesis
  proof (cases "throws body")
    case True
    with Transaction assms show ?thesis
      by (simp add: transaction_def Let_def view_inserts_index_dbs)
  next
    case False
    let ?s1 = "view_inserts (inserts body) s"
    from False Transaction assms(2)
    have "store_get k (index_dbs (snd (update_indexes enc (meta ?s1) ?s1)) nm) = Some l"
      by (simp add: transaction_def Let_def)
    moreover have "distinct l1" if "store_get k1 (index_dbs ?s1 nm1) = Some l1"
      for nm1 k1 l1 using that assms(1) by (simp add: view_inserts_index_dbs)
    ultimately show ?thesis using update_indexes_distinct by blast
  qed
next
  case (SearchCall srch)
  with assms show ?thesis by (auto simp: search_def Let_def split: if_splits)
next
  case (GetCall key)
  with assms show ?thesis by (simp add: get_def)
qed

lemma run_calls_distinct:
  "(\<And>nm k l. store_get k (index_dbs s nm) = Some l \<Longrightarrow> distinct l) \<Longrightarrow>
   store_get k (index_dbs (run_calls enc cs s) nm) = Some l \<Longrightarrow> distinct l"
proof (induction cs arbitrary: s)
  case Nil
  then show ?case by simp
next
  case (Cons c cs)
  have "distinct l1" if "store_get k1 (index_dbs (run_call enc c s) nm1) = Some l1" for nm1 k1 l1
    using run_call_distinct [OF Cons.prems(1) that] by simp
  from Cons.IH [OF this] Cons.prems(2) show ?case by simp
qed

lemma run_call_sorted:
  assumes "\<And>nm. sorted_wrt (<) (map fst (index_dbs s nm))"
  shows "sorted_wrt (<) (map fst (index_dbs (run_call enc c s) nm))"
proof (cases c)
  case (Insert key document)
  have "sorted_wrt (<) (map fst (index_dbs (db_put key document s) nm1))" for nm1
    using assms by (simp add: db_put_def)
  from update_indexes_sorted [OF this] Insert show ?thesis
    by (simp add: insert_doc_def Let_def)
next
  case (CreateIndex opts)
  with createIndex_sorted [OF assms] show ?thesis by simp
next
  case (Transaction body)
  have "sorted_wrt (<) (map fst (index_dbs (view_inserts (inserts body) s) nm1))" for nm1
    using assms by (simp add: view_inserts_index_dbs)
  from update_indexes_sorted [OF this] Transaction assms show ?thesis
    by (simp add: transaction_def Let_def view_inserts_index_dbs)
next
  case (SearchCall srch)
  with assms show ?thesis by (auto simp: search_def Let_def split: if_splits)
next
  case (GetCall key)
  with assms show ?thesis by (simp add: get_def)
qed

lemma run_calls_sorted:
  "(\<And>nm. sorted_wrt (<) (map fst (index_dbs s nm))) \<Longrightarrow>
   sorted_wrt (<) (map fst (index_dbs (run_calls enc cs s) nm))"
proof (induction cs arbitrary: s)
  case Nil
  then show ?case by simp
next
  case (Cons c cs)
  from Cons.IH [OF run_call_sorted [OF Cons.prems]] show ?case by simp
qed

lemma posting_keys_sorted:
  "sorted (map fst (index_dbs (run_calls enc cs new_database) nm))"
proof -
  have "sorted_wrt (<) (map fst (index_dbs (run_calls enc cs new_database) nm))"
    by (rule run_calls_sorted) (simp add: new_database_def)
  then show ?thesis
    by (rule sorted_wrt_mono_rel [rotated]) simp
qed

text \<open>
  Claim C4. \<open>createIndex\<close> is idempotent: a second call with the same options, the primary
  store unchanged, leaves every posting store as the first call left it and ends as the
  first did. Posting lists are free of duplicates: after any sequence of calls on a new
  database, however often a document is inserted or an index rebuilt, no posting list
  holds a primary key twice.
\<close>

theorem createIndex_idempotent_dedup:
  "index_dbs (snd (createIndex enc opts (snd (createIndex enc opts s)))) =
     index_dbs (snd (createIndex enc opts s)) \<and>
   fst (createIndex enc opts (snd (createIndex enc opts s))) = fst (createIndex enc opts s) \<and>
   db (snd (createIndex enc opts s)) = db s \<and>
   (store_get v (index_dbs (run_calls enc calls new_database) nm) = Some l \<longrightarrow> distinct l)"
proof -
  have "store_get v (index_dbs (run_calls enc calls new_database) nm) = Some l \<longrightarrow> distinct l"
  proof
    assume a: "store_get v (index_dbs (run_calls enc calls new_database) nm) = Some l"
    have "distinct l1" if "store_get k1 (index_dbs new_database nm1) = Some l1" for nm1 k1 l1
      using that by (simp add: new_database_def store_get_def)
    from run_calls_distinct [OF this a] show "distinct l" by simp
  qed
  then show ?thesis
    by (simp add: createIndex_twice createIndex_db)
qed


subsection \<open>Transactions\<close>








subsection \<open>Prefix search after a rebuild\<close>

text \<open>
  After a rebuild that returned, the prefix search on that index misses no stored document:
  every stored document whose indexed value has the prefix is among the results.
\<close>

lemma search_startsWith_complete:
  assumes rec: "recognized (type opts)" and ok: "fst (createIndex enc opts s) = Inr ()"
    and srt: "sorted_wrt (<) (map fst (index_dbs s (name opts)))"
    and got: "store_get key (db s) = Some d"
    and key: "enc (js_get d (field opts)) = Some v" and pre: "prefix p v"
  shows "Some d \<in> set (fst (search
           \<lparr>index = name opts, query = \<lparr>dollar_eq = None, dollar_startsWith = Some p\<rparr>\<rparr>
           (snd (createIndex enc opts s))))"
proof (cases rule: createIndex_cases [of opts enc s])
  case unrecognized
  with rec show ?thesis by simp
next
  case (failed e ix')
  with ok show ?thesis by simp
next
  case (rebuilt ix')
  let ?s' = "snd (createIndex enc opts s)"
  have ix: "index_dbs ?s' (name opts) = ix'" and db': "db ?s' = db s"
    using rebuilt(3) by simp_all
  from got have "(key, d) \<in> set (db s)" by (simp add: store_get_def map_of_SomeD)
  from index_scan_covers [OF rebuilt(2) this] key
  obtain l where l: "store_get v ix' = Some l" "key \<in> set l" by auto
  then have mem: "(v, l) \<in> set ix'" by (simp add: store_get_def map_of_SomeD)
  have "sorted_wrt (<) (map fst ix')" by (rule index_scan_sorted [OF rebuilt(2) srt])
  then have "sorted (map fst ix')" by (rule sorted_wrt_mono_rel [rotated]) simp
  then have keys: "search_keys \<lparr>dollar_eq = None, dollar_startsWith = Some p\<rparr> ix' =
      concat (map snd (filter (\<lambda>(k, v). prefix p k) ix'))"
    by (simp add: search_keys_def scan_concat seek_scan_sorted)
  have "key \<in> set (concat (map snd (filter (\<lambda>(k, v). prefix p k) ix')))"
    using mem pre l(2) by force
  then have in_keys: "key \<in> set (search_keys \<lparr>dollar_eq = None, dollar_startsWith = Some p\<rparr> ix')"
    using keys by simp
  then have ne: "search_keys \<lparr>dollar_eq = None, dollar_startsWith = Some p\<rparr> ix' \<noteq> []" by auto
  have "Some d \<in> set (getMany (search_keys \<lparr>dollar_eq = None, dollar_startsWith = Some p\<rparr> ix') (db s))"
    using in_keys got by (force simp: getMany_def store_get_def image_iff)
  with ne ix db' show ?thesis by (simp add: search_def Let_def)
qed

subsection \<open>The examples, evaluated\<close>

lemma example_db_eval:
  "example_db =
     \<lparr>db = [(''A'', doc_a), (''B'', doc_b)],
      meta = [(''title:text'', \<lparr>field = ''title'', type = ''text''\<rparr>)],
      meta_json = Some [(''title:text'', \<lparr>field = ''title'', type = ''text''\<rparr>)],
      index_dbs = (\<lambda>n. [])(''title:text'' := [(''Node Advanced'', [''B'']), (''Node JS Basics'', [''A''])]),
      trace = [DbPut ''A'', DbPut ''B'', IndexOpen ''title:text'', DbIterator, IndexClose ''title:text'']\<rparr>"
  by (simp add: example_db_def new_database_def insert_doc_def db_put_def createIndex_def
      updateMeta_def title_index_def doc_a_def doc_b_def store_get_def Let_def index_scan.simps js_get_simps)

text \<open>
  Claim C5 has a search with \<^verbatim>\<open>$startsWith: p\<close> return exactly the documents whose
  indexed field value has the prefix \<open>p\<close>. The code returns more: a rebuild adds postings
  and removes none, so after a document indexed under \<^verbatim>\<open>Node JS Basics\<close> is overwritten
  by one titled \<^verbatim>\<open>Deno\<close>, the search for the prefix \<^verbatim>\<open>Node JS\<close> returns the document
  titled \<^verbatim>\<open>Deno\<close>, whose title does not start with the term.
\<close>

theorem search_returns_stale_document:
  "fst (search prefix_search stale_db) = [Some doc_c] \<and>
   js_get doc_c ''title'' = Own (JStr ''Deno'') \<and>
   \<not> prefix ''Node JS'' ''Deno''"
  by (simp add: stale_db_def new_database_def insert_doc_def db_put_def createIndex_def
      updateMeta_def title_index_def doc_a_def doc_c_def store_get_def Let_def index_scan.simps js_get_simps
      search_def search_keys_def prefix_search_def store_seek_def getMany_def)

theorem search_startsWith_exact_example:
  "fst (search prefix_search example_db) = [Some doc_a]"
  using search_startsWith_exact [of example_db prefix_search "''Node JS''"]
  by (simp add: example_db_eval prefix_search_def getMany_def)

theorem search_no_operator_witness:
  "search empty_search example_db =
     ([], example_db\<lparr>trace := trace example_db @ [IndexOpen ''title:text'', IndexClose ''title:text'']\<rparr>)"
  using search_no_operator [of empty_search example_db]
  by (simp add: empty_search_def)

theorem insert_get_roundtrip_witness:
  "fst (get ''A'' (snd (insert_doc string_key ''A'' doc_c example_db))) = Inr doc_c"
  using insert_get_roundtrip [of "''A''" string_key doc_c example_db] by simp

theorem search_accumulates_witness:
  "fst (search both_search example_db) = [Some doc_b, Some doc_b, Some doc_a]"
  using search_accumulates [of both_search example_db]
  by (simp add: both_search_def example_db_eval store_get_def store_seek_def getMany_def)



theorem createIndex_idempotent_dedup_witness:
  "store_get ''Node JS Basics''
     (index_dbs (run_calls string_key [Insert ''A'' doc_a, CreateIndex title_index, Insert ''A'' doc_a,
        CreateIndex title_index] new_database) ''title:text'') = Some [''A''] \<and>
   distinct [''A'']"
  using createIndex_idempotent_dedup [of string_key title_index new_database "''Node JS Basics''"
      "[Insert ''A'' doc_a, CreateIndex title_index, Insert ''A'' doc_a, CreateIndex title_index]"
      "''title:text''" "[''A'']"]
  by (simp add: new_database_def insert_doc_def db_put_def createIndex_def
      updateMeta_def title_index_def doc_a_def store_get_def Let_def index_scan.simps js_get_simps)



end
